theory Spec2Isabelle
  imports Main "HOL-Library.Word" "HOL-Library.Mapping" "HOL-Library.AList_Mapping"
begin

section \<open>Strings\<close>

text \<open>
  Go strings are modelled as \<open>string\<close>, one \<open>char\<close> per character of the text. The
  functions of package \<^verbatim>\<open>strings\<close> that the resolver calls are written out here after
  their documented behaviour.
\<close>

definition backslash :: char where
  "backslash = CHR 0x5C"

definition newline :: char where
  "newline = CHR 0x0A"

definition HasPrefix :: "string \<Rightarrow> string \<Rightarrow> bool" where
  "HasPrefix s pre = (length pre \<le> length s \<and> take (length pre) s = pre)"

definition HasSuffix :: "string \<Rightarrow> string \<Rightarrow> bool" where
  "HasSuffix s suf = (length suf \<le> length s \<and> drop (length s - length suf) s = suf)"

definition TrimSuffix :: "string \<Rightarrow> string \<Rightarrow> string" where
  "TrimSuffix s suf = (if HasSuffix s suf then take (length s - length suf) s else s)"

fun Contains :: "string \<Rightarrow> string \<Rightarrow> bool" where
  "Contains [] substr = (substr = [])"
| "Contains (c # cs) substr = (HasPrefix (c # cs) substr \<or> Contains cs substr)"

text \<open>
  \<^verbatim>\<open>strings.ReplaceAll(s, old, new)\<close> for a non-empty \<open>old = o # os\<close>: the occurrences of
  \<open>old\<close> are replaced from left to right, without overlap.
\<close>

fun ReplaceAll_from :: "string \<Rightarrow> char \<Rightarrow> string \<Rightarrow> string \<Rightarrow> string" where
  "ReplaceAll_from [] o1 os new = []"
| "ReplaceAll_from (c # cs) o1 os new =
     (if c = o1 \<and> HasPrefix cs os
      then new @ ReplaceAll_from (drop (length os) cs) o1 os new
      else c # ReplaceAll_from cs o1 os new)"

text \<open>With an empty \<open>old\<close>, Go inserts \<open>new\<close> before every character and at the end.\<close>

definition ReplaceAll :: "string \<Rightarrow> string \<Rightarrow> string \<Rightarrow> string" where
  "ReplaceAll s old new =
     (case old of
        [] \<Rightarrow> concat (map (\<lambda>c. new @ [c]) s) @ new
      | o1 # os \<Rightarrow> ReplaceAll_from s o1 os new)"

section \<open>Regular expressions\<close>

text \<open>
  \<^verbatim>\<open>regexp.QuoteMeta\<close> puts a backslash before each of the bytes
  \<^verbatim>\<open>\.+*?()|[]{}^$\<close> and copies every other byte.
\<close>

definition special :: "char \<Rightarrow> bool" where
  "special b = (b = backslash \<or> b \<in> set ''.+*?()|[]{}^$'')"

fun QuoteMeta :: "string \<Rightarrow> string" where
  "QuoteMeta [] = []"
| "QuoteMeta (b # s) = (if special b then backslash # b # QuoteMeta s else b # QuoteMeta s)"

text \<open>
  The compiled form of a regular expression, for the part of Go's syntax that
  \<^verbatim>\<open>wildcardToRegex\<close> can produce: literal characters, \<^verbatim>\<open>.\<close> (any character but a
  newline, the default without the \<^verbatim>\<open>s\<close> flag), a star on either, and the anchors
  \<^verbatim>\<open>^\<close> and \<^verbatim>\<open>$\<close> (begin and end of the text, the default without the \<^verbatim>\<open>m\<close> flag).
\<close>

datatype atom = Lit char | AnyCharNotNL

datatype inst = One atom | Star atom | BeginText | EndText

type_synonym Regexp = "inst list"

text \<open>
  In Go's syntax a backslash followed by a punctuation character is that character taken
  literally; ASCII punctuation is every printable ASCII character that is neither a
  letter, a digit nor the space.
\<close>

definition punct :: "char \<Rightarrow> bool" where
  "punct c = (c \<in> set ''!\"#$%&()*+,-./:;<=>?@[]^_`{|}~'' \<or> c = backslash \<or> c = CHR 0x27)"

text \<open>
  \<^verbatim>\<open>regexp.Compile\<close> on that part of the syntax. \<open>None\<close> stands for every other pattern:
  those Go rejects (a repetition operator with nothing to repeat, a trailing backslash)
  and those whose operators (\<^verbatim>\<open>+ ? ( ) | [ ] { }\<close>, escapes of letters and digits) this
  model does not cover.
\<close>

fun regexp_Compile :: "string \<Rightarrow> Regexp option" where
  "regexp_Compile [] = Some []"
| "regexp_Compile (c # cs) =
     (if c = CHR ''^'' then map_option ((#) BeginText) (regexp_Compile cs)
      else if c = CHR ''$'' then map_option ((#) EndText) (regexp_Compile cs)
      else if c \<in> set ''*+?()|[]{}'' then None
      else if c = backslash then
        (case cs of
           [] \<Rightarrow> None
         | d # ds \<Rightarrow>
             if \<not> punct d then None
             else (case ds of
                     [] \<Rightarrow> Some [One (Lit d)]
                   | e # es \<Rightarrow>
                       if e = CHR ''*'' then map_option ((#) (Star (Lit d))) (regexp_Compile es)
                       else map_option ((#) (One (Lit d))) (regexp_Compile ds)))
      else
        (case cs of
           [] \<Rightarrow> Some [One (if c = CHR ''.'' then AnyCharNotNL else Lit c)]
         | e # es \<Rightarrow>
             if e = CHR ''*''
             then map_option ((#) (Star (if c = CHR ''.'' then AnyCharNotNL else Lit c)))
                    (regexp_Compile es)
             else map_option ((#) (One (if c = CHR ''.'' then AnyCharNotNL else Lit c)))
                    (regexp_Compile cs)))"

fun atom_matches :: "atom \<Rightarrow> char \<Rightarrow> bool" where
  "atom_matches (Lit c) x = (x = c)"
| "atom_matches AnyCharNotNL x = (x \<noteq> newline)"

text \<open>
  \<open>match_here re at_begin s\<close>: the expression matches a prefix of \<open>s\<close>, where \<open>s\<close> is
  what is left of the text and \<open>at_begin\<close> says that nothing of the text lies before it.
\<close>

fun match_here :: "Regexp \<Rightarrow> bool \<Rightarrow> string \<Rightarrow> bool" where
  "match_here [] at_begin s = True"
| "match_here (BeginText # re) at_begin s = (at_begin \<and> match_here re at_begin s)"
| "match_here (EndText # re) at_begin s = (s = [] \<and> match_here re at_begin s)"
| "match_here (One a # re) at_begin [] = False"
| "match_here (One a # re) at_begin (x # xs) = (atom_matches a x \<and> match_here re False xs)"
| "match_here (Star a # re) at_begin [] = match_here re at_begin []"
| "match_here (Star a # re) at_begin (x # xs) =
     (match_here re at_begin (x # xs) \<or> (atom_matches a x \<and> match_here (Star a # re) False xs))"

fun match_from :: "Regexp \<Rightarrow> bool \<Rightarrow> string \<Rightarrow> bool" where
  "match_from re at_begin [] = match_here re at_begin []"
| "match_from re at_begin (x # xs) = (match_here re at_begin (x # xs) \<or> match_from re False xs)"

text \<open>\<^verbatim>\<open>(*Regexp).MatchString\<close>: the text contains a match, starting anywhere.\<close>

definition MatchString :: "Regexp \<Rightarrow> string \<Rightarrow> bool" where
  "MatchString re s = match_from re True s"

section \<open>The allowlist matcher\<close>

definition wildcardToRegex :: "string \<Rightarrow> Regexp option" where
  "wildcardToRegex pattern =
     (let escaped = QuoteMeta pattern;
          escaped = ReplaceAll escaped [backslash, CHR ''*''] ''.*'';
          regexPattern = ''^'' @ escaped @ ''$''
      in regexp_Compile regexPattern)"

definition isWildcardPattern :: "string \<Rightarrow> bool" where
  "isWildcardPattern pattern = Contains pattern ''*''"

text \<open>
  The body of the scanner loop of \<^verbatim>\<open>loadAllowlist\<close>, for one line after
  \<^verbatim>\<open>strings.TrimSpace\<close>: blank lines and comments are skipped, a wildcard pattern is
  compiled and appended (or skipped when it does not compile), any other line is an exact
  domain. The state is the pair of the exact-domain map and the compiled patterns.
\<close>

type_synonym allowlist_state = "(string \<rightharpoonup> bool) \<times> Regexp list"

definition loadPattern :: "string \<Rightarrow> allowlist_state \<Rightarrow> allowlist_state" where
  "loadPattern pattern st =
     (case st of (allowlist, wildcardPatterns) \<Rightarrow>
        if pattern \<noteq> [] \<and> \<not> HasPrefix pattern ''#'' then
          if isWildcardPattern pattern then
            (case wildcardToRegex pattern of
               Some regex \<Rightarrow> (allowlist, wildcardPatterns @ [regex])
             | None \<Rightarrow> (allowlist, wildcardPatterns))
          else (allowlist(pattern \<mapsto> True), wildcardPatterns)
        else (allowlist, wildcardPatterns))"

text \<open>
  The loop over a file that was opened: both parts of the state are reset, then every line
  is loaded in file order. \<open>patterns\<close> are the lines of the file after \<^verbatim>\<open>TrimSpace\<close>.
\<close>

definition loadPatterns :: "string list \<Rightarrow> allowlist_state" where
  "loadPatterns patterns = fold loadPattern patterns (Map.empty, [])"

text \<open>
  The translation of a wildcard pattern as the specification words it: every regular
  expression metacharacter except \<^verbatim>\<open>*\<close> is escaped, each \<^verbatim>\<open>*\<close> becomes \<^verbatim>\<open>.*\<close>, and the
  result is wrapped in \<^verbatim>\<open>^\<close> and \<^verbatim>\<open>$\<close>. \<open>spec_matched p d\<close>: that expression matches \<open>d\<close>.
\<close>

definition spec_translate :: "char \<Rightarrow> string" where
  "spec_translate c =
     (if c = CHR ''*'' then ''.*'' else if special c then [backslash, c] else [c])"

definition spec_wildcard_regex :: "string \<Rightarrow> string" where
  "spec_wildcard_regex p = ''^'' @ concat (map spec_translate p) @ ''$''"

definition spec_matched :: "string \<Rightarrow> string \<Rightarrow> bool" where
  "spec_matched p d =
     (case regexp_Compile (spec_wildcard_regex p) of
        Some re \<Rightarrow> MatchString re d
      | None \<Rightarrow> False)"

text \<open>The instruction a pattern character compiles to.\<close>

definition compiled :: "char \<Rightarrow> inst" where
  "compiled c = (if c = CHR ''*'' then Star AnyCharNotNL else One (Lit c))"

text \<open>
  What such an anchored expression accepts, written out on the pattern itself: a \<^verbatim>\<open>*\<close>
  stands for any run of characters without a newline, every other character for itself.
\<close>

fun glob_matches :: "string \<Rightarrow> string \<Rightarrow> bool" where
  "glob_matches [] d = (d = [])"
| "glob_matches (c # p) [] = (c = CHR ''*'' \<and> glob_matches p [])"
| "glob_matches (c # p) (x # xs) =
     (if c = CHR ''*'' then glob_matches p (x # xs) \<or> (x \<noteq> newline \<and> glob_matches (c # p) xs)
      else x = c \<and> glob_matches p xs)"

section \<open>DNS messages\<close>

text \<open>
  The fields of the message types of the DNS library that the handler reads or writes, and
  the library's \<^verbatim>\<open>SetReply\<close> and \<^verbatim>\<open>SetRcode\<close>.
\<close>

record Question =
  Name :: string
  Qtype :: "16 word"
  Qclass :: "16 word"

record RR_Header =
  hdr_Name :: string
  Rrtype :: "16 word"
  Class :: "16 word"
  Ttl :: "32 word"

record SOA =
  Hdr :: RR_Header
  soa_Ns :: string
  Mbox :: string
  Serial :: "32 word"
  Refresh :: "32 word"
  Retry :: "32 word"
  Expire :: "32 word"
  Minttl :: "32 word"

datatype RR = RR_SOA SOA | RR_Other RR_Header string

record Msg =
  Id :: "16 word"
  Response :: bool
  Opcode :: nat
  RecursionDesired :: bool
  CheckingDisabled :: bool
  Rcode :: nat
  Question :: "Question list"
  Answer :: "RR list"
  Ns :: "RR list"
  Extra :: "RR list"

definition OpcodeQuery :: nat where "OpcodeQuery = 0"
definition RcodeSuccess :: nat where "RcodeSuccess = 0"
definition RcodeServerFailure :: nat where "RcodeServerFailure = 2"
definition RcodeNameError :: nat where "RcodeNameError = 3"
definition TypeSOA :: "16 word" where "TypeSOA = 6"
definition ClassINET :: "16 word" where "ClassINET = 1"

text \<open>The zero value \<^verbatim>\<open>dns.Msg{}\<close>.\<close>

definition zero_Msg :: Msg where
  "zero_Msg = \<lparr>Id = 0, Response = False, Opcode = 0, RecursionDesired = False,
     CheckingDisabled = False, Rcode = 0, Question = [], Answer = [], Ns = [], Extra = []\<rparr>"

definition SetReply :: "Msg \<Rightarrow> Msg \<Rightarrow> Msg" where
  "SetReply m request =
     (let m = m\<lparr>Id := Id request, Response := True, Opcode := Opcode request\<rparr>;
          m = (if Opcode m = OpcodeQuery
               then m\<lparr>RecursionDesired := RecursionDesired request,
                       CheckingDisabled := CheckingDisabled request\<rparr>
               else m);
          m = m\<lparr>Rcode := RcodeSuccess\<rparr>
      in if length (Question request) > 0 then m\<lparr>Question := [hd (Question request)]\<rparr> else m)"

definition SetRcode :: "Msg \<Rightarrow> Msg \<Rightarrow> nat \<Rightarrow> Msg" where
  "SetRcode m request rcode = (SetReply m request)\<lparr>Rcode := rcode\<rparr>"

section \<open>Configuration\<close>

record Config =
  UpstreamNameservers :: "string list"

definition GetUpstreamAddresses :: "Config \<Rightarrow> string list" where
  "GetUpstreamAddresses c =
     map (\<lambda>addr. if \<not> Contains addr '':'' then addr @ '':53'' else addr) (UpstreamNameservers c)"

section \<open>The API server: query ledger and focus-mode state\<close>

text \<open>
  A \<^verbatim>\<open>time.Time\<close> is an instant in nanoseconds, a \<^verbatim>\<open>time.Duration\<close> a number of
  nanoseconds.
\<close>

type_synonym time = int
type_synonym duration = int

definition Second :: duration where
  "Second = 1000000000"

text \<open>A ledger entry, with the four fields \<^verbatim>\<open>handleRequest\<close> fills.\<close>

record DNSQuery =
  Client :: string
  Domain :: string
  Timestamp :: time
  Blocked :: bool

record api_Server =
  queryMap :: "(string, DNSQuery) mapping"
  api_focusMode :: bool
  api_focusEndTime :: "time option"

definition api_NewServer :: api_Server where
  "api_NewServer = \<lparr>queryMap = Mapping.empty, api_focusMode = False, api_focusEndTime = None\<rparr>"

text \<open>
  \<^verbatim>\<open>AddQuery\<close>. Go iterates over a map in no fixed order and \<^verbatim>\<open>sort.Slice\<close> is not
  stable, so the slice \<open>entries\<close> that the eviction loop walks is not a function of the
  map: it is an argument here, the slice as one run of the code has it after the sort.
  \<open>sorted_entries\<close> says what every run guarantees about it.
\<close>

definition sorted_entries :: "(string, DNSQuery) mapping \<Rightarrow> DNSQuery list \<Rightarrow> bool" where
  "sorted_entries m entries =
     ((\<exists>keys. distinct keys \<and> set keys = Mapping.keys m
          \<and> entries = map (\<lambda>k. the (Mapping.lookup m k)) keys)
      \<and> sorted_wrt (\<lambda>a b. \<not> Timestamp b < Timestamp a) entries)"

definition AddQuery :: "DNSQuery list \<Rightarrow> api_Server \<Rightarrow> DNSQuery \<Rightarrow> api_Server" where
  "AddQuery entries s query =
     (let m = Mapping.update (Domain query) query (queryMap s)
      in if Mapping.size m > 100
         then (let entriesToRemove = length entries - 100
               in s\<lparr>queryMap :=
                     fold (\<lambda>e m. Mapping.delete (Domain e) m) (take entriesToRemove entries) m\<rparr>)
         else s\<lparr>queryMap := m\<rparr>)"




text \<open>
  \<^verbatim>\<open>handleSetFocusMode\<close>. The decoded JSON body is \<open>None\<close> when decoding fails.
  \<^verbatim>\<open>time.ParseDuration\<close> is a parameter (\<open>None\<close> for a string it rejects), and so is the
  callback \<^verbatim>\<open>onFocusModeChange\<close>, which acts on a state \<open>'d\<close> of the DNS side and returns
  an error or none. The result lists the calls made to the callback.
\<close>

record SetFocusRequest =
  req_Enabled :: bool
  req_Duration :: string

type_synonym 'd callback = "bool \<Rightarrow> duration \<Rightarrow> 'd \<Rightarrow> string option \<times> 'd"

record 'd SetFocusResult =
  status :: nat
  api_after :: api_Server
  dns_after :: 'd
  callback_calls :: "(bool \<times> duration) list"

definition handleSetFocusMode ::
  "(string \<Rightarrow> duration option) \<Rightarrow> 'd callback option \<Rightarrow> time \<Rightarrow>
   SetFocusRequest option \<Rightarrow> api_Server \<Rightarrow> 'd \<Rightarrow> 'd SetFocusResult" where
  "handleSetFocusMode ParseDuration onFocusModeChange now body s d =
     (case body of
        None \<Rightarrow> \<lparr>status = 400, api_after = s, dns_after = d, callback_calls = []\<rparr>
      | Some req \<Rightarrow>
          (case (if req_Enabled req \<and> req_Duration req \<noteq> []
                 then ParseDuration (req_Duration req) else Some 0) of
             None \<Rightarrow> \<lparr>status = 400, api_after = s, dns_after = d, callback_calls = []\<rparr>
           | Some duration \<Rightarrow>
               (let s' = s\<lparr>api_focusMode := req_Enabled req,
                            api_focusEndTime :=
                              (if req_Enabled req \<and> duration > 0 then Some (now + duration)
                               else None)\<rparr>
                in case onFocusModeChange of
                     None \<Rightarrow> \<lparr>status = 200, api_after = s', dns_after = d, callback_calls = []\<rparr>
                   | Some callback \<Rightarrow>
                       (case callback (req_Enabled req) duration d of
                          (Some err, d') \<Rightarrow>
                            \<lparr>status = 500, api_after = s', dns_after = d',
                             callback_calls = [(req_Enabled req, duration)]\<rparr>
                        | (None, d') \<Rightarrow>
                            \<lparr>status = 200, api_after = s', dns_after = d',
                             callback_calls = [(req_Enabled req, duration)]\<rparr>))))"

text \<open>
  The duration \<^verbatim>\<open>handleSetFocusMode\<close> works with: the string is parsed only when the request
  enables focus mode and the string is not empty; otherwise the duration is zero.
\<close>

definition parsed_duration :: "(string \<Rightarrow> duration option) \<Rightarrow> SetFocusRequest \<Rightarrow> duration option" where
  "parsed_duration ParseDuration req =
     (if req_Enabled req \<and> req_Duration req \<noteq> [] then ParseDuration (req_Duration req)
      else Some 0)"

section \<open>The DNS server\<close>

record Server =
  config :: Config
  apiServer :: "api_Server option"
  allowlist :: "string \<rightharpoonup> bool"
  wildcardPatterns :: "Regexp list"
  focusMode :: bool
  focusEndTime :: "time option"

text \<open>The loop of \<^verbatim>\<open>isAllowed\<close> over the compiled patterns, returning at the first match.\<close>

fun matchPatterns :: "Regexp list \<Rightarrow> string \<Rightarrow> bool" where
  "matchPatterns [] domain = False"
| "matchPatterns (pattern # rest) domain =
     (if MatchString pattern domain then True else matchPatterns rest domain)"

text \<open>Reading a Go \<^verbatim>\<open>map[string]bool\<close> at a missing key gives \<^verbatim>\<open>false\<close>.\<close>

definition isAllowed :: "Server \<Rightarrow> string \<Rightarrow> bool" where
  "isAllowed s domain =
     (if (case allowlist s domain of Some b \<Rightarrow> b | None \<Rightarrow> False) then True
      else matchPatterns (wildcardPatterns s) domain)"

text \<open>
  \<^verbatim>\<open>loadAllowlist\<close>, as far as the server's state goes. \<open>file\<close> is \<open>None\<close> when the
  allowlist file does not exist or cannot be opened (the state is left as it is), and
  otherwise the lines the scanner read, each after \<^verbatim>\<open>TrimSpace\<close>.
\<close>

definition loadAllowlist :: "string list option \<Rightarrow> Server \<Rightarrow> Server" where
  "loadAllowlist file s =
     (case file of
        None \<Rightarrow> s
      | Some patterns \<Rightarrow>
          (case loadPatterns patterns of
             (al, wp) \<Rightarrow> s\<lparr>allowlist := al, wildcardPatterns := wp\<rparr>))"

text \<open>\<^verbatim>\<open>setFocusMode\<close>, the callback the DNS server registers with the API server.\<close>

definition setFocusMode ::
  "string list option \<Rightarrow> time \<Rightarrow> bool \<Rightarrow> duration \<Rightarrow> Server \<Rightarrow> string option \<times> Server" where
  "setFocusMode file now enabled duration s =
     (let s = s\<lparr>focusMode := enabled,
                 focusEndTime := (if enabled \<and> duration > 0 then Some (now + duration) else None)\<rparr>;
          s = (if enabled then loadAllowlist file s else s)
      in (None, s))"

text \<open>
  \<^verbatim>\<open>forward\<close>. \<^verbatim>\<open>client.Exchange\<close> is the network: a parameter that takes the state \<open>'w\<close>
  of the world and the client, the query and the upstream address, and returns an error
  or a response. Each call is logged as an attempt.
\<close>

record dns_Client =
  Timeout :: duration

record attempt =
  att_client :: dns_Client
  att_query :: Msg
  att_upstream :: string
  att_outcome :: "string + Msg"

type_synonym 'w exchange = "'w \<Rightarrow> dns_Client \<Rightarrow> Msg \<Rightarrow> string \<Rightarrow> (string + Msg) \<times> 'w"

datatype forward_error = AllUpstreamsFailed

fun forward_loop ::
  "'w exchange \<Rightarrow> dns_Client \<Rightarrow> Msg \<Rightarrow> string list \<Rightarrow> 'w \<Rightarrow>
   (forward_error + Msg) \<times> attempt list \<times> 'w" where
  "forward_loop Exchange client r [] w = (Inl AllUpstreamsFailed, [], w)"
| "forward_loop Exchange client r (upstream # rest) w =
     (case Exchange w client r upstream of
        (Inr response, w') \<Rightarrow>
          (Inr response,
           [\<lparr>att_client = client, att_query = r, att_upstream = upstream,
             att_outcome = Inr response\<rparr>], w')
      | (Inl err, w') \<Rightarrow>
          (case forward_loop Exchange client r rest w' of
             (res, tried, w'') \<Rightarrow>
               (res,
                \<lparr>att_client = client, att_query = r, att_upstream = upstream,
                 att_outcome = Inl err\<rparr> # tried, w'')))"

definition forward ::
  "'w exchange \<Rightarrow> Server \<Rightarrow> Msg \<Rightarrow> 'w \<Rightarrow> (forward_error + Msg) \<times> attempt list \<times> 'w" where
  "forward Exchange s r w =
     (let client = \<lparr>Timeout = 5 * Second\<rparr>;
          upstreams = GetUpstreamAddresses (config s)
      in forward_loop Exchange client r upstreams w)"

text \<open>
  What one run of \<^verbatim>\<open>handleRequest\<close> observes of its surroundings: the remote address, the
  reverse lookup of \<^verbatim>\<open>resolveHost\<close>, the clock at the expiry check and at the query
  record, the Unix time read by \<^verbatim>\<open>getDNSSerial\<close>, and the sorted slice of \<^verbatim>\<open>AddQuery\<close>.
\<close>

record Env =
  RemoteAddr :: string
  resolveHost :: "string \<Rightarrow> string"
  now_expiry :: time
  now_query :: time
  now_unix :: "64 word"
  entries :: "DNSQuery list"

text \<open>
  \<^verbatim>\<open>time.Now().Unix()\<close> is an \<^verbatim>\<open>int64\<close>; \<^verbatim>\<open>getDNSSerial\<close> receives it as its argument
  and converts it to \<^verbatim>\<open>uint32\<close> (a truncation, \<open>ucast\<close>) after two range checks.
\<close>

definition getDNSSerial :: "64 word \<Rightarrow> 32 word" where
  "getDNSSerial unixTime =
     (if unixTime <s 0 then 0
      else if 0x7FFFFFFF <s unixTime then 0x7FFFFFFF
      else ucast unixTime)"

text \<open>
  The focus-mode read at the head of \<^verbatim>\<open>handleRequest\<close>: the flag and the deadline are
  read, and a deadline that has passed switches focus mode off in the server. The result
  is the local \<^verbatim>\<open>focusMode\<close> and the server.
\<close>

definition readFocusMode :: "time \<Rightarrow> Server \<Rightarrow> bool \<times> Server" where
  "readFocusMode now s =
     (if focusMode s \<and> focusEndTime s \<noteq> None \<and> now > the (focusEndTime s)
      then (False, s\<lparr>focusMode := False, focusEndTime := None\<rparr>)
      else (focusMode s, s))"

text \<open>The query record: made when the domain is not empty, stored when an API server is attached.\<close>

definition recordQuery :: "Env \<Rightarrow> bool \<Rightarrow> string \<Rightarrow> Server \<Rightarrow> Server" where
  "recordQuery env focusMode' domain s =
     (if domain \<noteq> [] then
        (let blocked = (focusMode' \<and> \<not> isAllowed s domain)
         in case apiServer s of
              Some api \<Rightarrow>
                (let clientHostname = resolveHost env (RemoteAddr env);
                     query = \<lparr>Client = clientHostname, Domain = domain,
                              Timestamp = now_query env, Blocked = blocked\<rparr>
                 in s\<lparr>apiServer := Some (AddQuery (entries env) api query)\<rparr>)
            | None \<Rightarrow> s)
      else s)"

text \<open>
  Indexing a Go slice: the runtime checks the index and panics with the index and the
  length when it is out of range.
\<close>

datatype panic = IndexOutOfRange nat nat

definition index :: "'a list \<Rightarrow> nat \<Rightarrow> panic + 'a" where
  "index xs i = (if i < length xs then Inr (xs ! i) else Inl (IndexOutOfRange i (length xs)))"

text \<open>
  The result of a run that returns: the message given to \<^verbatim>\<open>WriteMsg\<close>, what \<^verbatim>\<open>forward\<close>
  returned (\<open>None\<close> when it was not called) with the upstream attempts it made, the server
  and the world afterwards. The name is read under the length check of the source; the
  block branch indexes the question slice with no check of its own.
\<close>

record 'w Handled =
  written :: Msg
  forwarded :: "(forward_error + Msg) option"
  attempts :: "attempt list"
  server :: Server
  world :: 'w

definition handleRequest ::
  "'w exchange \<Rightarrow> Env \<Rightarrow> Server \<Rightarrow> 'w \<Rightarrow> Msg \<Rightarrow> panic + 'w Handled" where
  "handleRequest Exchange env s w r =
     (let msg = SetReply zero_Msg r;
          domain = (if length (Question r) > 0 then TrimSuffix (Name (Question r ! 0)) ''.''
                    else []);
          (focusMode', s) = readFocusMode (now_expiry env) s;
          s = recordQuery env focusMode' domain s
      in if focusMode' \<and> \<not> isAllowed s domain then
           (let msg = SetRcode msg r RcodeNameError
            in case index (Question r) 0 of
                 Inl p \<Rightarrow> Inl p
               | Inr question \<Rightarrow>
                   (let soa = \<lparr>Hdr = \<lparr>hdr_Name = Name question, Rrtype = TypeSOA,
                                       Class = ClassINET, Ttl = 300\<rparr>,
                               soa_Ns = ''sinkzone.local.'', Mbox = ''admin.sinkzone.local.'',
                               Serial = getDNSSerial (now_unix env),
                               Refresh = 300, Retry = 300, Expire = 300, Minttl = 300\<rparr>;
                        msg = msg\<lparr>Ns := Ns msg @ [RR_SOA soa]\<rparr>
                    in Inr \<lparr>written = msg, forwarded = None, attempts = [], server = s,
                            world = w\<rparr>))
         else
           (case forward Exchange s r w of
              (Inl err, tried, w') \<Rightarrow>
                Inr \<lparr>written = SetRcode msg r RcodeServerFailure, forwarded = Some (Inl err),
                     attempts = tried, server = s, world = w'\<rparr>
            | (Inr response, tried, w') \<Rightarrow>
                Inr \<lparr>written = response, forwarded = Some (Inr response), attempts = tried,
                     server = s, world = w'\<rparr>))"

text \<open>
  Names for the parts of a run: the queried name with its trailing dot trimmed, the
  decision to block, the server after the focus-mode read and the query record, and the
  SOA record of a block response.
\<close>

definition request_domain :: "Msg \<Rightarrow> string" where
  "request_domain r =
     (if length (Question r) > 0 then TrimSuffix (Name (Question r ! 0)) ''.'' else [])"

definition request_blocked :: "Env \<Rightarrow> Server \<Rightarrow> Msg \<Rightarrow> bool" where
  "request_blocked env s r =
     (fst (readFocusMode (now_expiry env) s) \<and> \<not> isAllowed s (request_domain r))"

definition server_after :: "Env \<Rightarrow> Server \<Rightarrow> Msg \<Rightarrow> Server" where
  "server_after env s r =
     recordQuery env (fst (readFocusMode (now_expiry env) s)) (request_domain r)
       (snd (readFocusMode (now_expiry env) s))"

definition block_SOA :: "Env \<Rightarrow> Msg \<Rightarrow> SOA" where
  "block_SOA env r =
     \<lparr>Hdr = \<lparr>hdr_Name = Name (Question r ! 0), Rrtype = TypeSOA, Class = ClassINET, Ttl = 300\<rparr>,
      soa_Ns = ''sinkzone.local.'', Mbox = ''admin.sinkzone.local.'',
      Serial = getDNSSerial (now_unix env),
      Refresh = 300, Retry = 300, Expire = 300, Minttl = 300\<rparr>"

section \<open>Runs of the ledger\<close>

text \<open>
  \<open>recorded history m\<close>: the ledger \<open>m\<close> is what a sequence of \<^verbatim>\<open>AddQuery\<close> calls leaves,
  starting from the empty map of \<^verbatim>\<open>NewServer\<close>; \<open>history\<close> lists the recorded queries,
  the latest first. Each call may see any slice that \<open>sorted_entries\<close> allows.
\<close>

inductive recorded :: "DNSQuery list \<Rightarrow> (string, DNSQuery) mapping \<Rightarrow> bool" where
  recorded_start: "recorded [] Mapping.empty"
| recorded_add:
    "recorded history (queryMap s) \<Longrightarrow>
     sorted_entries (Mapping.update (Domain query) query (queryMap s)) es \<Longrightarrow>
     recorded (query # history) (queryMap (AddQuery es s query))"

text \<open>
  What every ledger of a run satisfies: finitely many keys, at most 100 of them, and under
  each key the latest query recorded for that domain.
\<close>

definition ledger_inv :: "DNSQuery list \<Rightarrow> (string, DNSQuery) mapping \<Rightarrow> bool" where
  "ledger_inv history m =
     (finite (Mapping.keys m) \<and> Mapping.size m \<le> 100
      \<and> (\<forall>d e. Mapping.lookup m d = Some e \<longrightarrow>
             Domain e = d \<and> find (\<lambda>q. Domain q = d) history = Some e))"

section \<open>Example data\<close>

text \<open>
  A network in which only \<^verbatim>\<open>1.1.1.1:53\<close> answers, an environment, a server with the
  allowlist \<^verbatim>\<open>openai.com\<close>, \<^verbatim>\<open>*.docs.rs\<close> and a query for a name.
\<close>

definition example_Exchange :: "unit exchange" where
  "example_Exchange w client r upstream =
     (if upstream = ''1.1.1.1:53'' then (Inr (r\<lparr>Response := True\<rparr>), w) else (Inl ''i/o timeout'', w))"

definition example_Env :: Env where
  "example_Env = \<lparr>RemoteAddr = ''127.0.0.1:40000'', resolveHost = (\<lambda>addr. ''localhost''),
     now_expiry = 200, now_query = 201, now_unix = 1700000000, entries = []\<rparr>"

definition example_Server :: "bool \<Rightarrow> time option \<Rightarrow> api_Server option \<Rightarrow> Server" where
  "example_Server enabled deadline api =
     \<lparr>config = \<lparr>UpstreamNameservers = [''8.8.8.8'', ''1.1.1.1'']\<rparr>, apiServer = api,
      allowlist = fst (loadPatterns [''openai.com'', ''*.docs.rs'']),
      wildcardPatterns = snd (loadPatterns [''openai.com'', ''*.docs.rs'']),
      focusMode = enabled, focusEndTime = deadline\<rparr>"

definition example_query :: "string \<Rightarrow> Msg" where
  "example_query name = zero_Msg\<lparr>Id := 7, Question := [\<lparr>Name = name, Qtype = 1, Qclass = 1\<rparr>]\<rparr>"

text \<open>Two queries for one domain, the second later and blocked.\<close>

definition example_first :: DNSQuery where
  "example_first = \<lparr>Client = ''localhost'', Domain = ''example.com'', Timestamp = 5, Blocked = False\<rparr>"

definition example_second :: DNSQuery where
  "example_second = \<lparr>Client = ''localhost'', Domain = ''example.com'', Timestamp = 9, Blocked = True\<rparr>"

text \<open>
  \<^verbatim>\<open>time.ParseDuration\<close> on the strings of the examples: \<^verbatim>\<open>1h\<close> and \<^verbatim>\<open>10m\<close> parse,
  \<^verbatim>\<open>abc\<close> is rejected (a duration starts with a digit or a point).
\<close>

definition example_ParseDuration :: "string \<Rightarrow> duration option" where
  "example_ParseDuration = map_of [(''1h'', 3600 * Second), (''10m'', 600 * Second)]"

section \<open>The SOA serial\<close>

lemma sint_nonneg_uint:
  fixes t :: "64 word"
  assumes "0 \<le> sint t"
  shows "sint t = uint t"
proof -
  have "\<not> bit t (63::nat)" using assms bit_last_iff [of t] by simp
  then have nb: "\<not> bit (uint t) (63::nat)" by (simp add: bit_uint_iff)
  have "sint t = signed_take_bit 63 (uint t)" by (simp add: sint_uint)
  also have "\<dots> = take_bit 63 (uint t)" using nb by (simp add: signed_take_bit_eq_if_positive)
  also have "\<dots> = take_bit 64 (uint t)"
    using nb by (simp add: take_bit_Suc_from_most [of 63, simplified])
  also have "\<dots> = uint t" using uint_bounded [of t] by (simp add: take_bit_int_eq_self)
  finally show ?thesis .
qed

lemma uint_ucast_in_range:
  fixes t :: "64 word"
  assumes "0 \<le> sint t" and "sint t \<le> 0x7FFFFFFF"
  shows "uint (ucast t :: 32 word) = sint t"
proof -
  have su: "sint t = uint t" using assms(1) by (rule sint_nonneg_uint)
  have "uint (ucast t :: 32 word) = take_bit 32 (uint t)"
    by (simp add: unsigned_ucast_eq)
  also have "\<dots> = uint t"
    using assms su by (simp add: take_bit_int_eq_self)
  finally show ?thesis using su by simp
qed

text \<open>
  C9. \<^verbatim>\<open>getDNSSerial\<close> returns the Unix time clamped to the 31-bit unsigned range: 0 for a
  negative Unix time, \<^verbatim>\<open>0x7FFFFFFF\<close> for one above \<^verbatim>\<open>0x7FFFFFFF\<close>, and the Unix time
  itself otherwise, so that the conversion to \<^verbatim>\<open>uint32\<close> loses nothing and the serial
  lies between 0 and \<open>2^31 - 1\<close>.
\<close>

theorem getDNSSerial_clamped:
  "uint (getDNSSerial unixTime) =
     (if sint unixTime < 0 then 0
      else if 0x7FFFFFFF < sint unixTime then 0x7FFFFFFF
      else sint unixTime)
   \<and> 0 \<le> uint (getDNSSerial unixTime) \<and> uint (getDNSSerial unixTime) \<le> 2 ^ 31 - 1"
proof -
  have eq: "uint (getDNSSerial unixTime) =
     (if sint unixTime < 0 then 0
      else if 0x7FFFFFFF < sint unixTime then 0x7FFFFFFF
      else sint unixTime)"
    unfolding getDNSSerial_def by (simp add: word_sless_alt uint_ucast_in_range)
  show ?thesis unfolding eq by simp
qed

theorem getDNSSerial_clamped_witness:
  "uint (getDNSSerial (- 5)) = 0 \<and> uint (getDNSSerial 4294967296) = 2147483647
   \<and> uint (getDNSSerial 1700000000) = 1700000000"
  using getDNSSerial_clamped [of "- 5"] getDNSSerial_clamped [of 4294967296]
    getDNSSerial_clamped [of 1700000000]
  by simp

section \<open>Allowlist lookup\<close>

lemma matchPatterns_iff:
  "matchPatterns ps d \<longleftrightarrow> (\<exists>re\<in>set ps. MatchString re d)"
  by (induction ps) auto

lemma matchPatterns_first:
  "matchPatterns ps d \<longleftrightarrow>
     (\<exists>i<length ps. MatchString (ps ! i) d \<and> (\<forall>j<i. \<not> MatchString (ps ! j) d))"
proof
  assume "matchPatterns ps d"
  then have ex: "\<exists>i. i < length ps \<and> MatchString (ps ! i) d"
    by (auto simp: matchPatterns_iff in_set_conv_nth)
  define i where "i = (LEAST i. i < length ps \<and> MatchString (ps ! i) d)"
  have least: "i < length ps \<and> MatchString (ps ! i) d"
    unfolding i_def using ex by (rule LeastI_ex)
  moreover have "\<forall>j<i. \<not> MatchString (ps ! j) d"
  proof (intro allI impI notI)
    fix j assume "j < i" "MatchString (ps ! j) d"
    moreover from this least have "j < length ps" by simp
    ultimately have "i \<le> j" unfolding i_def by (intro Least_le) simp
    with \<open>j < i\<close> show False by simp
  qed
  ultimately show "\<exists>i<length ps. MatchString (ps ! i) d \<and> (\<forall>j<i. \<not> MatchString (ps ! j) d)"
    by blast
next
  assume "\<exists>i<length ps. MatchString (ps ! i) d \<and> (\<forall>j<i. \<not> MatchString (ps ! j) d)"
  then show "matchPatterns ps d" by (auto simp: matchPatterns_iff)
qed

text \<open>
  C4. \<^verbatim>\<open>isAllowed\<close> returns true exactly when the domain is in the exact-domain map, or
  is not and some compiled wildcard pattern matches it; the patterns are tried in load
  order and the first that matches decides.
\<close>

theorem isAllowed_exact_or_wildcard:
  "isAllowed s d \<longleftrightarrow>
     allowlist s d = Some True
     \<or> (allowlist s d \<noteq> Some True
        \<and> (\<exists>i<length (wildcardPatterns s). MatchString (wildcardPatterns s ! i) d
              \<and> (\<forall>j<i. \<not> MatchString (wildcardPatterns s ! j) d)))"
proof -
  have "(case allowlist s d of Some b \<Rightarrow> b | None \<Rightarrow> False) \<longleftrightarrow> allowlist s d = Some True"
    by (simp split: option.split)
  then show ?thesis
    unfolding isAllowed_def using matchPatterns_first [of "wildcardPatterns s" d] by auto
qed

theorem isAllowed_exact_or_wildcard_witness:
  "allowlist (example_Server True None None) ''crates.docs.rs'' \<noteq> Some True
   \<and> MatchString (wildcardPatterns (example_Server True None None) ! 0) ''crates.docs.rs''
   \<and> isAllowed (example_Server True None None) ''crates.docs.rs''
   \<and> allowlist (example_Server True None None) ''openai.com'' = Some True
   \<and> isAllowed (example_Server True None None) ''openai.com''
   \<and> \<not> isAllowed (example_Server True None None) ''evil.com''"
proof -
  let ?s = "example_Server True None None"
  have a: "allowlist ?s ''crates.docs.rs'' \<noteq> Some True" by code_simp
  have b: "MatchString (wildcardPatterns ?s ! 0) ''crates.docs.rs''" by code_simp
  have l: "0 < length (wildcardPatterns ?s)" by code_simp
  have c: "isAllowed ?s ''crates.docs.rs''"
    using isAllowed_exact_or_wildcard [of ?s "''crates.docs.rs''"] a b l by auto
  have d: "allowlist ?s ''openai.com'' = Some True" by code_simp
  have e: "isAllowed ?s ''openai.com''"
    using isAllowed_exact_or_wildcard [of ?s "''openai.com''"] d by simp
  have f: "allowlist ?s ''evil.com'' \<noteq> Some True" by code_simp
  have g: "length (wildcardPatterns ?s) = 1" by code_simp
  have h: "\<not> MatchString (wildcardPatterns ?s ! 0) ''evil.com''" by code_simp
  have i: "\<not> isAllowed ?s ''evil.com''"
    using isAllowed_exact_or_wildcard [of ?s "''evil.com''"] f g h by auto
  show ?thesis using a b c d e i by simp
qed

section \<open>Wildcard compilation\<close>

lemma special_star: "special (CHR ''*'')"
  by (simp add: special_def)

lemma special_backslash: "special backslash"
  by (simp add: special_def)

lemma QuoteMeta_no_star_head: "QuoteMeta p \<noteq> CHR ''*'' # rest"
  by (cases p) (auto simp: special_star backslash_def)

lemma HasPrefix_single: "HasPrefix s [c] \<longleftrightarrow> (\<exists>rest. s = c # rest)"
  by (cases s) (auto simp: HasPrefix_def)

lemma ReplaceAll_QuoteMeta:
  "ReplaceAll (QuoteMeta p) [backslash, CHR ''*''] ''.*'' = concat (map spec_translate p)"
proof -
  have "ReplaceAll_from (QuoteMeta p) backslash ''*'' ''.*'' = concat (map spec_translate p)"
  proof (induction p)
    case Nil
    show ?case by simp
  next
    case (Cons c p)
    show ?case
    proof (cases "c = CHR ''*''")
      case True
      then show ?thesis
        using Cons.IH by (simp add: special_star spec_translate_def HasPrefix_single)
    next
      case False
      note ns = this
      show ?thesis
      proof (cases "special c")
        case True
        have nh: "\<not> HasPrefix (QuoteMeta p) ''*''"
          by (simp add: HasPrefix_single QuoteMeta_no_star_head)
        have "ReplaceAll_from (c # QuoteMeta p) backslash ''*'' ''.*''
                = c # ReplaceAll_from (QuoteMeta p) backslash ''*'' ''.*''"
          using nh by simp
        then show ?thesis
          using True ns Cons.IH by (simp add: spec_translate_def HasPrefix_single)
      next
        case False
        then have "c \<noteq> backslash" using special_backslash by auto
        then show ?thesis
          using False ns Cons.IH by (simp add: spec_translate_def)
      qed
    qed
  qed
  then show ?thesis by (simp add: ReplaceAll_def)
qed

lemma wildcardToRegex_spec:
  "wildcardToRegex p = regexp_Compile (spec_wildcard_regex p)"
  by (simp add: wildcardToRegex_def spec_wildcard_regex_def ReplaceAll_QuoteMeta Let_def)

lemma special_punct: "special c \<Longrightarrow> punct c"
  by (auto simp: special_def punct_def)

lemma translated_no_star_head:
  "concat (map spec_translate p) @ ''$'' \<noteq> CHR ''*'' # rest"
  by (cases p) (auto simp: spec_translate_def backslash_def)

lemma translated_nonempty: "concat (map spec_translate p) @ ''$'' \<noteq> []"
  by simp

lemma Compile_translated:
  "regexp_Compile (concat (map spec_translate p) @ ''$'') = Some (map compiled p @ [EndText])"
proof (induction p)
  case Nil
  show ?case by simp
next
  case (Cons c p)
  let ?rest = "concat (map spec_translate p) @ ''$''"
  obtain e es where rest: "?rest = e # es" and e: "e \<noteq> CHR ''*''"
    using translated_no_star_head [of p] by (cases ?rest) auto
  show ?case
  proof (cases "c = CHR ''*''")
    case True
    then have "spec_translate c = ''.*''" "compiled c = Star AnyCharNotNL"
      by (simp_all add: spec_translate_def compiled_def)
    then show ?thesis
      using Cons.IH by (simp add: backslash_def)
  next
    case False
    note ns = this
    show ?thesis
    proof (cases "special c")
      case True
      have "regexp_Compile (backslash # c # ?rest) = map_option ((#) (One (Lit c))) (regexp_Compile ?rest)"
        using special_punct [OF True] e unfolding rest
        by (simp add: backslash_def)
      moreover have "spec_translate c = [backslash, c]" "compiled c = One (Lit c)"
        using True ns by (simp_all add: spec_translate_def compiled_def)
      ultimately show ?thesis
        using Cons.IH by (simp del: regexp_Compile.simps)
    next
      case False
      then have c: "c \<noteq> CHR ''^''" "c \<noteq> CHR ''$''" "c \<notin> set ''*+?()|[]{}''" "c \<noteq> backslash" "c \<noteq> CHR ''.''"
        by (auto simp: special_def)
      have "regexp_Compile (c # ?rest) = map_option ((#) (One (Lit c))) (regexp_Compile ?rest)"
        using c e unfolding rest by simp
      moreover have "spec_translate c = [c]" "compiled c = One (Lit c)"
        using False ns by (simp_all add: spec_translate_def compiled_def)
      ultimately show ?thesis
        using Cons.IH by (simp del: regexp_Compile.simps)
    qed
  qed
qed

lemma wildcardToRegex_total:
  "wildcardToRegex p = Some (BeginText # map compiled p @ [EndText])"
  using Compile_translated [of p]
  by (simp add: wildcardToRegex_spec spec_wildcard_regex_def)




lemma match_here_compiled:
  "match_here (map compiled p @ [EndText]) b d = glob_matches p d"
proof (induction p d arbitrary: b rule: glob_matches.induct)
  case (1 d)
  show ?case by simp
next
  case (2 c p)
  then show ?case by (simp add: compiled_def)
next
  case (3 c p x xs)
  show ?case
  proof (cases "c = CHR ''*''")
    case True
    have "match_here (map compiled (c # p) @ [EndText]) b (x # xs)
        = (match_here (map compiled p @ [EndText]) b (x # xs)
           \<or> (x \<noteq> newline \<and> match_here (map compiled (c # p) @ [EndText]) False xs))"
      using True by (simp add: compiled_def)
    then show ?thesis using True "3.IH"(1) [OF True] "3.IH"(2) [OF True] by simp
  next
    case False
    then show ?thesis using "3.IH"(3) [OF False] by (simp add: compiled_def)
  qed
qed

lemma match_from_begin_later: "match_from (BeginText # re) False s = False"
  by (induction s) simp_all

lemma MatchString_anchored:
  "MatchString (BeginText # re) d = match_here re True d"
  by (cases d) (simp_all add: MatchString_def match_from_begin_later)

lemma spec_matched_glob: "spec_matched p d = glob_matches p d"
proof -
  have "regexp_Compile (spec_wildcard_regex p) = Some (BeginText # map compiled p @ [EndText])"
    using wildcardToRegex_total [of p] by (simp add: wildcardToRegex_spec)
  then show ?thesis
    by (simp add: spec_matched_def MatchString_anchored match_here_compiled)
qed



section \<open>The query ledger\<close>

lemma lookup_delete_if:
  "Mapping.lookup (Mapping.delete k m) k' = (if k = k' then None else Mapping.lookup m k')"
  by simp

lemma fold_delete_keys:
  "Mapping.keys (fold (\<lambda>e m. Mapping.delete (Domain e) m) es m) = Mapping.keys m - Domain ` set es"
  by (induction es arbitrary: m) auto

lemma fold_delete_lookup:
  "Mapping.lookup (fold (\<lambda>e m. Mapping.delete (Domain e) m) es m) d
     = (if d \<in> Domain ` set es then None else Mapping.lookup m d)"
  by (induction es arbitrary: m) (auto simp: lookup_delete_if)

lemma AddQuery_step:
  assumes inv: "ledger_inv history (queryMap s)"
    and se: "sorted_entries (Mapping.update (Domain query) query (queryMap s)) es"
  shows "ledger_inv (query # history) (queryMap (AddQuery es s query))"
    and "Mapping.size (Mapping.update (Domain query) query (queryMap s)) \<le> 100 \<Longrightarrow>
           queryMap (AddQuery es s query) = Mapping.update (Domain query) query (queryMap s)"
    and "100 < Mapping.size (Mapping.update (Domain query) query (queryMap s)) \<Longrightarrow>
           Mapping.size (queryMap (AddQuery es s query)) = 100
           \<and> Mapping.keys (queryMap (AddQuery es s query))
                \<subseteq> Mapping.keys (Mapping.update (Domain query) query (queryMap s))
           \<and> (\<forall>gone kept.
                gone \<in> Mapping.keys (Mapping.update (Domain query) query (queryMap s)) \<longrightarrow>
                gone \<notin> Mapping.keys (queryMap (AddQuery es s query)) \<longrightarrow>
                kept \<in> Mapping.keys (queryMap (AddQuery es s query)) \<longrightarrow>
                Timestamp (the (Mapping.lookup (Mapping.update (Domain query) query (queryMap s)) gone))
                  \<le> Timestamp (the (Mapping.lookup (Mapping.update (Domain query) query (queryMap s)) kept)))"
proof -
  let ?m = "queryMap s"
  let ?m1 = "Mapping.update (Domain query) query ?m"
  let ?m' = "queryMap (AddQuery es s query)"
  have fin: "finite (Mapping.keys ?m1)" using inv by (simp add: ledger_inv_def)
  have old: "Domain e = d \<and> find (\<lambda>q. Domain q = d) history = Some e"
    if "Mapping.lookup ?m d = Some e" for d e
    using inv that unfolding ledger_inv_def by blast
  have cons: "Domain e = d \<and> find (\<lambda>q. Domain q = d) (query # history) = Some e"
    if a: "Mapping.lookup ?m1 d = Some e" for d e
  proof (cases "d = Domain query")
    case True
    then have "e = query" using a by simp
    then show ?thesis using True by simp
  next
    case False
    then have "Mapping.lookup ?m d = Some e" using a by simp
    from old [OF this] show ?thesis using False by simp
  qed
  obtain ks where ks: "distinct ks" "set ks = Mapping.keys ?m1"
      "es = map (\<lambda>k. the (Mapping.lookup ?m1 k)) ks"
    and sorted: "sorted_wrt (\<lambda>a b. \<not> Timestamp b < Timestamp a) es"
    using se unfolding sorted_entries_def by blast
  have dom_es: "map Domain es = ks"
  proof -
    have "\<And>k. k \<in> set ks \<Longrightarrow> Domain (the (Mapping.lookup ?m1 k)) = k"
    proof -
      fix k assume "k \<in> set ks"
      then have "k \<in> Mapping.keys ?m1" using ks(2) by simp
      from Mapping.in_keysD [OF this] obtain e where le: "Mapping.lookup ?m1 k = Some e" by blast
      from cons [OF le] show "Domain (the (Mapping.lookup ?m1 k)) = k" using le by simp
    qed
    then have "map (\<lambda>k. Domain (the (Mapping.lookup ?m1 k))) ks = ks" by (rule map_idI)
    then show ?thesis unfolding ks(3) by (simp add: comp_def)
  qed
  have len: "length es = Mapping.size ?m1"
  proof -
    have "card (set ks) = length ks" using ks(1) by (rule distinct_card)
    moreover have "length es = length ks" unfolding ks(3) by simp
    ultimately show ?thesis unfolding Mapping.size_def ks(2) [symmetric] by simp
  qed
  show small: "Mapping.size ?m1 \<le> 100 \<Longrightarrow> ?m' = ?m1"
    by (simp add: AddQuery_def Let_def)
  let ?n = "length es - 100"
  have big_eq: "100 < Mapping.size ?m1 \<Longrightarrow>
      ?m' = fold (\<lambda>e m. Mapping.delete (Domain e) m) (take ?n es) ?m1"
    by (simp add: AddQuery_def Let_def)
  have dom_take: "Domain ` set (take ?n es) = set (take ?n ks)"
  proof -
    have "map Domain (take ?n es) = take ?n ks" using dom_es by (simp add: take_map [symmetric])
    then have "set (map Domain (take ?n es)) = set (take ?n ks)" by simp
    then show ?thesis by simp
  qed
  have split: "set ks = set (take ?n ks) \<union> set (drop ?n ks)"
    using set_append [of "take ?n ks" "drop ?n ks"] by simp
  have disj: "set (take ?n ks) \<inter> set (drop ?n ks) = {}"
    using ks(1) distinct_append [of "take ?n ks" "drop ?n ks"] by simp
  have keys_big: "100 < Mapping.size ?m1 \<Longrightarrow> Mapping.keys ?m' = set (drop ?n ks)"
  proof -
    assume big: "100 < Mapping.size ?m1"
    have "Mapping.keys ?m' = Mapping.keys ?m1 - set (take ?n ks)"
      using big_eq [OF big] dom_take by (simp add: fold_delete_keys)
    also have "\<dots> = set (drop ?n ks)" using split disj ks(2) by auto
    finally show ?thesis .
  qed
  have lookup_big: "100 < Mapping.size ?m1 \<Longrightarrow>
      Mapping.lookup ?m' d = (if d \<in> set (take ?n ks) then None else Mapping.lookup ?m1 d)" for d
    using big_eq dom_take by (simp add: fold_delete_lookup)
  have size_big: "100 < Mapping.size ?m1 \<Longrightarrow> Mapping.size ?m' = 100"
  proof -
    assume big: "100 < Mapping.size ?m1"
    have "distinct (drop ?n ks)" using ks(1) by simp
    then have "card (set (drop ?n ks)) = length (drop ?n ks)" by (rule distinct_card)
    moreover have "length ks = length es" using ks(3) by simp
    ultimately show ?thesis using keys_big [OF big] big len by (simp add: Mapping.size_def)
  qed
  show "100 < Mapping.size ?m1 \<Longrightarrow>
           Mapping.size ?m' = 100 \<and> Mapping.keys ?m' \<subseteq> Mapping.keys ?m1
           \<and> (\<forall>gone kept. gone \<in> Mapping.keys ?m1 \<longrightarrow> gone \<notin> Mapping.keys ?m' \<longrightarrow>
                kept \<in> Mapping.keys ?m' \<longrightarrow>
                Timestamp (the (Mapping.lookup ?m1 gone)) \<le> Timestamp (the (Mapping.lookup ?m1 kept)))"
  proof -
    assume big: "100 < Mapping.size ?m1"
    have sub: "Mapping.keys ?m' \<subseteq> Mapping.keys ?m1"
      using keys_big [OF big] ks(2) set_drop_subset [of ?n ks] by simp
    have order: "Timestamp (the (Mapping.lookup ?m1 gone)) \<le> Timestamp (the (Mapping.lookup ?m1 kept))"
      if g: "gone \<in> Mapping.keys ?m1" "gone \<notin> Mapping.keys ?m'" and k: "kept \<in> Mapping.keys ?m'"
      for gone kept
    proof -
      have "gone \<in> set (take ?n ks)" using g keys_big [OF big] split ks(2) by auto
      then obtain i where i: "i < ?n" "i < length ks" "ks ! i = gone"
        by (auto simp: in_set_conv_nth)
      have "kept \<in> set (drop ?n ks)" using k keys_big [OF big] by simp
      then obtain j0 where j0: "j0 < length (drop ?n ks)" "drop ?n ks ! j0 = kept"
        by (auto simp: in_set_conv_nth)
      define j where "j = ?n + j0"
      have j: "j < length ks" "ks ! j = kept" "i < j"
        using j0 i by (auto simp: j_def)
      have "j < length es" using j(1) ks(3) by simp
      with sorted j(3) have "\<not> Timestamp (es ! j) < Timestamp (es ! i)"
        by (simp add: sorted_wrt_iff_nth_less)
      moreover have "es ! i = the (Mapping.lookup ?m1 gone)" "es ! j = the (Mapping.lookup ?m1 kept)"
        using i j ks(3) by simp_all
      ultimately show ?thesis by simp
    qed
    show ?thesis using size_big [OF big] sub order by blast
  qed
  show "ledger_inv (query # history) ?m'"
  proof (cases "100 < Mapping.size ?m1")
    case True
    have "finite (Mapping.keys ?m')" using keys_big [OF True] by simp
    moreover have "Mapping.size ?m' \<le> 100" using size_big [OF True] by simp
    moreover have "Domain e = d \<and> find (\<lambda>q. Domain q = d) (query # history) = Some e"
      if a: "Mapping.lookup ?m' d = Some e" for d e
    proof -
      have "Mapping.lookup ?m1 d = Some e"
        using a lookup_big [OF True, of d] by (simp split: if_splits)
      then show ?thesis by (rule cons)
    qed
    ultimately show ?thesis unfolding ledger_inv_def by blast
  next
    case False
    then have eq: "?m' = ?m1" and le: "Mapping.size ?m1 \<le> 100" using small by simp_all
    show ?thesis unfolding ledger_inv_def eq using fin le cons by blast
  qed
qed

lemma recorded_inv: "recorded history m \<Longrightarrow> ledger_inv history m"
proof (induction rule: recorded.induct)
  case recorded_start
  show ?case by (simp add: ledger_inv_def)
next
  case (recorded_add history s query es)
  then show ?case by (intro AddQuery_step(1))
qed

lemma sorted_entries_exists:
  assumes "finite (Mapping.keys m)"
  shows "\<exists>es. sorted_entries m es"
proof -
  obtain xs where xs: "set xs = Mapping.keys m" "distinct xs"
    using finite_distinct_list [OF assms] by blast
  define f where "f = (\<lambda>k. Timestamp (the (Mapping.lookup m k)))"
  define ks where "ks = sort_key f xs"
  define es where "es = map (\<lambda>k. the (Mapping.lookup m k)) ks"
  have "distinct ks" "set ks = Mapping.keys m" using xs by (simp_all add: ks_def)
  moreover have "sorted_wrt (\<lambda>a b. \<not> Timestamp b < Timestamp a) es"
  proof -
    have "sorted (map f ks)" by (simp add: ks_def)
    then have "sorted_wrt (\<lambda>a b. f a \<le> f b) ks" by (simp add: sorted_wrt_map)
    then show ?thesis by (simp add: es_def sorted_wrt_map f_def not_less)
  qed
  ultimately show ?thesis unfolding sorted_entries_def es_def by blast
qed

lemma recorded_sorted_entries_exists:
  assumes "recorded history (queryMap s)"
  shows "\<exists>es. sorted_entries (Mapping.update (Domain query) query (queryMap s)) es"
proof -
  have "finite (Mapping.keys (queryMap s))"
    using recorded_inv [OF assms] by (simp add: ledger_inv_def)
  then have "finite (Mapping.keys (Mapping.update (Domain query) query (queryMap s)))" by simp
  then show ?thesis by (rule sorted_entries_exists)
qed

text \<open>
  C5. After every \<^verbatim>\<open>AddQuery\<close> of a run the ledger holds at most 100 entries, one per
  domain and that the domain's latest recorded query; an insertion within the bound only
  stores the query, and one that takes the map above 100 entries evicts until exactly 100
  remain, every evicted entry being at most as recent as every entry kept.
\<close>

theorem AddQuery_bounded_latest:
  assumes "recorded history (queryMap s)"
    and "sorted_entries (Mapping.update (Domain query) query (queryMap s)) es"
  shows "Mapping.size (queryMap (AddQuery es s query)) \<le> 100
     \<and> (\<forall>d e. Mapping.lookup (queryMap (AddQuery es s query)) d = Some e \<longrightarrow>
           Domain e = d \<and> find (\<lambda>q. Domain q = d) (query # history) = Some e)
     \<and> (Mapping.size (Mapping.update (Domain query) query (queryMap s)) \<le> 100 \<longrightarrow>
           queryMap (AddQuery es s query) = Mapping.update (Domain query) query (queryMap s))
     \<and> (100 < Mapping.size (Mapping.update (Domain query) query (queryMap s)) \<longrightarrow>
           Mapping.size (queryMap (AddQuery es s query)) = 100
           \<and> Mapping.keys (queryMap (AddQuery es s query))
                \<subseteq> Mapping.keys (Mapping.update (Domain query) query (queryMap s))
           \<and> (\<forall>gone kept.
                gone \<in> Mapping.keys (Mapping.update (Domain query) query (queryMap s)) \<longrightarrow>
                gone \<notin> Mapping.keys (queryMap (AddQuery es s query)) \<longrightarrow>
                kept \<in> Mapping.keys (queryMap (AddQuery es s query)) \<longrightarrow>
                Timestamp (the (Mapping.lookup (Mapping.update (Domain query) query (queryMap s)) gone))
                  \<le> Timestamp (the (Mapping.lookup (Mapping.update (Domain query) query (queryMap s)) kept))))"
proof -
  have inv: "ledger_inv history (queryMap s)" using assms(1) by (rule recorded_inv)
  note st = AddQuery_step [OF inv assms(2)]
  have a: "Mapping.size (queryMap (AddQuery es s query)) \<le> 100"
    using st(1) unfolding ledger_inv_def by blast
  have b: "\<forall>d e. Mapping.lookup (queryMap (AddQuery es s query)) d = Some e \<longrightarrow>
           Domain e = d \<and> find (\<lambda>q. Domain q = d) (query # history) = Some e"
    using st(1) unfolding ledger_inv_def by blast
  show ?thesis using a b st(2) st(3) by blast
qed

theorem AddQuery_bounded_latest_witness:
  "recorded [example_first] (queryMap (AddQuery [example_first] api_NewServer example_first))
   \<and> sorted_entries
        (Mapping.update (Domain example_second) example_second
           (queryMap (AddQuery [example_first] api_NewServer example_first)))
        [example_second]
   \<and> Mapping.size (queryMap (AddQuery [example_second]
        (AddQuery [example_first] api_NewServer example_first) example_second)) \<le> 100
   \<and> Mapping.lookup (queryMap (AddQuery [example_second]
        (AddQuery [example_first] api_NewServer example_first) example_second)) ''example.com''
       = Some example_second"
proof -
  let ?s1 = "AddQuery [example_first] api_NewServer example_first"
  have q0: "queryMap api_NewServer = Mapping.empty" by (simp add: api_NewServer_def)
  have se0: "sorted_entries (Mapping.update (Domain example_first) example_first (queryMap api_NewServer))
               [example_first]"
    unfolding sorted_entries_def q0
    by (intro conjI exI [of _ "[''example.com'']"]) (simp_all add: example_first_def)
  have r0: "recorded [] (queryMap api_NewServer)" unfolding q0 by (rule recorded_start)
  have r1: "recorded [example_first] (queryMap ?s1)" using r0 se0 by (rule recorded_add)
  have m1: "queryMap ?s1 = Mapping.update ''example.com'' example_first Mapping.empty"
    by (simp add: AddQuery_def Let_def q0 Mapping.size_update example_first_def)
  have up: "Mapping.update (Domain example_second) example_second (queryMap ?s1)
              = Mapping.update ''example.com'' example_second Mapping.empty"
    unfolding m1 by (simp add: example_second_def Mapping.update_update)
  have se1: "sorted_entries (Mapping.update (Domain example_second) example_second (queryMap ?s1))
               [example_second]"
    unfolding sorted_entries_def up
    by (intro conjI exI [of _ "[''example.com'']"]) simp_all
  have sz: "Mapping.size (Mapping.update (Domain example_second) example_second (queryMap ?s1)) \<le> 100"
    unfolding up by (simp add: Mapping.size_update)
  note t = AddQuery_bounded_latest [OF r1 se1]
  have eq: "queryMap (AddQuery [example_second] ?s1 example_second)
              = Mapping.update ''example.com'' example_second Mapping.empty"
    using t sz up by simp
  have "Mapping.lookup (queryMap (AddQuery [example_second] ?s1 example_second)) ''example.com''
          = Some example_second"
    unfolding eq by simp
  then show ?thesis using r1 se1 t by blast
qed

section \<open>The request handler\<close>

lemma isAllowed_same_lists:
  "allowlist s' = allowlist s \<Longrightarrow> wildcardPatterns s' = wildcardPatterns s \<Longrightarrow>
   isAllowed s' d = isAllowed s d"
  by (simp add: isAllowed_def)

lemma forward_same_config: "config s' = config s \<Longrightarrow> forward Exchange s' r w = forward Exchange s r w"
  by (simp add: forward_def)

lemma readFocusMode_fields:
  "allowlist (snd (readFocusMode now s)) = allowlist s"
  "wildcardPatterns (snd (readFocusMode now s)) = wildcardPatterns s"
  "config (snd (readFocusMode now s)) = config s"
  "apiServer (snd (readFocusMode now s)) = apiServer s"
  by (simp_all add: readFocusMode_def)

lemma recordQuery_fields:
  "allowlist (recordQuery env fm d s) = allowlist s"
  "wildcardPatterns (recordQuery env fm d s) = wildcardPatterns s"
  "config (recordQuery env fm d s) = config s"
  "focusMode (recordQuery env fm d s) = focusMode s"
  "focusEndTime (recordQuery env fm d s) = focusEndTime s"
  by (simp_all add: recordQuery_def Let_def split: option.split)

lemma isAllowed_server_after: "isAllowed (server_after env s r) d = isAllowed s d"
  unfolding server_after_def
  by (rule isAllowed_same_lists) (simp_all add: recordQuery_fields readFocusMode_fields)

lemma forward_server_after:
  "forward Exchange (server_after env s r) q w = forward Exchange s q w"
  unfolding server_after_def
  by (rule forward_same_config) (simp add: recordQuery_fields readFocusMode_fields)

lemma Ns_SetRcode_zero: "Ns (SetRcode (SetReply zero_Msg r) r c) = []"
  by (simp add: SetRcode_def SetReply_def zero_Msg_def Let_def)

lemma Rcode_SetRcode: "Rcode (SetRcode m r c) = c"
  by (simp add: SetRcode_def)

lemma handleRequest_cases:
  "handleRequest Exchange env s w r =
     (if request_blocked env s r then
        (if Question r \<noteq> [] then
           Inr \<lparr>written = (SetRcode (SetReply zero_Msg r) r RcodeNameError)
                             \<lparr>Ns := [RR_SOA (block_SOA env r)]\<rparr>,
                forwarded = None, attempts = [], server = server_after env s r, world = w\<rparr>
         else Inl (IndexOutOfRange 0 0))
      else
        (case forward Exchange s r w of
           (Inl err, tried, w') \<Rightarrow>
             Inr \<lparr>written = SetRcode (SetReply zero_Msg r) r RcodeServerFailure,
                  forwarded = Some (Inl err), attempts = tried,
                  server = server_after env s r, world = w'\<rparr>
         | (Inr response, tried, w') \<Rightarrow>
             Inr \<lparr>written = response, forwarded = Some (Inr response), attempts = tried,
                  server = server_after env s r, world = w'\<rparr>))"
proof -
  obtain fm s1 where rf: "readFocusMode (now_expiry env) s = (fm, s1)"
    by (cases "readFocusMode (now_expiry env) s")
  define d where "d = request_domain r"
  define s2 where "s2 = recordQuery env fm d s1"
  have sa: "server_after env s r = s2"
    by (simp add: server_after_def rf s2_def d_def)
  have ia: "isAllowed s2 d = isAllowed s d"
    using isAllowed_server_after [of env s r d] sa by simp
  have fw: "forward Exchange s2 r w = forward Exchange s r w"
    using forward_server_after [of Exchange env s r r w] sa by simp
  have rb: "request_blocked env s r = (fm \<and> \<not> isAllowed s2 d)"
    by (simp add: request_blocked_def rf d_def [symmetric] ia)
  have "handleRequest Exchange env s w r =
     (if fm \<and> \<not> isAllowed s2 d then
        (case index (Question r) 0 of
           Inl p \<Rightarrow> Inl p
         | Inr question \<Rightarrow>
             Inr \<lparr>written = (SetRcode (SetReply zero_Msg r) r RcodeNameError)
                     \<lparr>Ns := Ns (SetRcode (SetReply zero_Msg r) r RcodeNameError)
                             @ [RR_SOA \<lparr>Hdr = \<lparr>hdr_Name = Name question, Rrtype = TypeSOA,
                                                 Class = ClassINET, Ttl = 300\<rparr>,
                                         soa_Ns = ''sinkzone.local.'',
                                         Mbox = ''admin.sinkzone.local.'',
                                         Serial = getDNSSerial (now_unix env),
                                         Refresh = 300, Retry = 300, Expire = 300,
                                         Minttl = 300\<rparr>]\<rparr>,
                  forwarded = None, attempts = [], server = s2, world = w\<rparr>)
      else
        (case forward Exchange s2 r w of
           (Inl err, tried, w') \<Rightarrow>
             Inr \<lparr>written = SetRcode (SetReply zero_Msg r) r RcodeServerFailure,
                  forwarded = Some (Inl err), attempts = tried,
                  server = s2, world = w'\<rparr>
         | (Inr response, tried, w') \<Rightarrow>
             Inr \<lparr>written = response, forwarded = Some (Inr response), attempts = tried,
                  server = s2, world = w'\<rparr>))"
    unfolding handleRequest_def rf s2_def d_def request_domain_def Let_def
    by (simp only: prod.case)
  then show ?thesis
    unfolding rb sa fw by (simp add: Ns_SetRcode_zero index_def block_SOA_def)
qed


lemma forward_loop_trace:
  "forward_loop Exchange client r ups w = (res, tried, w') \<Longrightarrow>
     map att_upstream tried = take (length tried) ups
     \<and> (\<forall>a\<in>set tried. att_client a = client \<and> att_query a = r)
     \<and> (\<forall>a\<in>set (butlast tried). isl (att_outcome a))
     \<and> (case res of
          Inr m \<Rightarrow> tried \<noteq> [] \<and> att_outcome (last tried) = Inr m
        | Inl e \<Rightarrow> length tried = length ups \<and> (\<forall>a\<in>set tried. isl (att_outcome a)))"
proof (induction ups arbitrary: w res tried w')
  case Nil
  then show ?case by auto
next
  case (Cons u ups)
  obtain out w1 where ex: "Exchange w client r u = (out, w1)"
    by (cases "Exchange w client r u")
  show ?case
  proof (cases out)
    case (Inr response)
    then have "res = Inr response"
      "tried = [\<lparr>att_client = client, att_query = r, att_upstream = u, att_outcome = Inr response\<rparr>]"
      using Cons.prems ex by simp_all
    then show ?thesis by simp
  next
    case (Inl err)
    obtain res1 tried1 w2 where rec: "forward_loop Exchange client r ups w1 = (res1, tried1, w2)"
      by (cases "forward_loop Exchange client r ups w1")
    have eq: "res = res1"
      "tried = \<lparr>att_client = client, att_query = r, att_upstream = u, att_outcome = Inl err\<rparr> # tried1"
      using Cons.prems ex Inl rec by simp_all
    note ih = Cons.IH [OF rec]
    have b: "\<forall>a\<in>set (butlast tried). isl (att_outcome a)"
      using ih unfolding eq(2) by (cases tried1) auto
    have c: "case res of
          Inr m \<Rightarrow> tried \<noteq> [] \<and> att_outcome (last tried) = Inr m
        | Inl e \<Rightarrow> length tried = length (u # ups) \<and> (\<forall>a\<in>set tried. isl (att_outcome a))"
      using ih unfolding eq by (cases res1) auto
    show ?thesis using ih b c unfolding eq(2) by simp
  qed
qed

lemma forward_trace:
  assumes "forward Exchange s r w = (res, tried, w')"
  shows "map att_upstream tried = take (length tried) (GetUpstreamAddresses (config s))"
    and "\<forall>a\<in>set tried. Timeout (att_client a) = 5 * Second \<and> att_query a = r"
    and "\<forall>a\<in>set (butlast tried). isl (att_outcome a)"
    and "res = Inr m \<longleftrightarrow> tried \<noteq> [] \<and> att_outcome (last tried) = Inr m"
    and "isl res \<longleftrightarrow>
           length tried = length (GetUpstreamAddresses (config s))
           \<and> (\<forall>a\<in>set tried. isl (att_outcome a))"
proof -
  let ?client = "\<lparr>Timeout = 5 * Second\<rparr>"
  have fl: "forward_loop Exchange ?client r (GetUpstreamAddresses (config s)) w = (res, tried, w')"
    using assms by (simp add: forward_def Let_def)
  note t = forward_loop_trace [OF fl]
  show "map att_upstream tried = take (length tried) (GetUpstreamAddresses (config s))"
    using t by simp
  show "\<forall>a\<in>set tried. Timeout (att_client a) = 5 * Second \<and> att_query a = r"
    using t by simp
  show "\<forall>a\<in>set (butlast tried). isl (att_outcome a)"
    using t by simp
  have cs: "case res of
          Inr m \<Rightarrow> tried \<noteq> [] \<and> att_outcome (last tried) = Inr m
        | Inl e \<Rightarrow> length tried = length (GetUpstreamAddresses (config s))
                   \<and> (\<forall>a\<in>set tried. isl (att_outcome a))"
    using t by simp
  show "res = Inr m \<longleftrightarrow> tried \<noteq> [] \<and> att_outcome (last tried) = Inr m"
  proof (cases res)
    case (Inl e)
    then have all: "\<forall>a\<in>set tried. isl (att_outcome a)" using cs by simp
    have "\<not> (tried \<noteq> [] \<and> att_outcome (last tried) = Inr m)"
    proof
      assume a: "tried \<noteq> [] \<and> att_outcome (last tried) = Inr m"
      then have "last tried \<in> set tried" by simp
      with all have "isl (att_outcome (last tried))" by blast
      with a show False by simp
    qed
    then show ?thesis using Inl by simp
  next
    case (Inr m')
    then show ?thesis using cs by auto
  qed
  show "isl res \<longleftrightarrow>
           length tried = length (GetUpstreamAddresses (config s))
           \<and> (\<forall>a\<in>set tried. isl (att_outcome a))"
  proof (cases res)
    case (Inl e)
    then show ?thesis using cs by simp
  next
    case (Inr m')
    then have l: "tried \<noteq> []" "att_outcome (last tried) = Inr m'" using cs by simp_all
    then have "last tried \<in> set tried" by simp
    then have "\<not> (\<forall>a\<in>set tried. isl (att_outcome a))" using l(2) by force
    then show ?thesis using Inr by simp
  qed
qed

lemma request_domain_hd:
  "Question r \<noteq> [] \<Longrightarrow> request_domain r = TrimSuffix (Name (hd (Question r))) ''.''"
  by (simp add: request_domain_def hd_conv_nth)

lemma SOA_fields:
  "Ttl (Hdr (block_SOA env r)) = 300" "Refresh (block_SOA env r) = 300"
  "Retry (block_SOA env r) = 300" "Expire (block_SOA env r) = 300"
  "Minttl (block_SOA env r) = 300" "Serial (block_SOA env r) = getDNSSerial (now_unix env)"
  by (simp_all add: block_SOA_def)

lemma handleRequest_server:
  "handleRequest Exchange env s w r = Inr h \<Longrightarrow> server h = server_after env s r"
  unfolding handleRequest_cases
  by (auto split: if_splits prod.splits sum.splits)

lemma handleRequest_returns:
  assumes "\<not> request_blocked env s r \<or> Question r \<noteq> []"
  shows "\<exists>h. handleRequest Exchange env s w r = Inr h"
proof (cases "request_blocked env s r")
  case True
  then show ?thesis using assms by (simp add: handleRequest_cases)
next
  case False
  obtain res tried w' where fw: "forward Exchange s r w = (res, tried, w')"
    by (cases "forward Exchange s r w")
  show ?thesis using False fw by (cases res) (simp_all add: handleRequest_cases)
qed

text \<open>
  C1. For a request that carries a question, with \<open>d\<close> its queried name without the
  trailing dot, the handler blocks exactly when focus mode is enabled (as read at this
  request) and \<open>d\<close> is not allowed. A blocked request is answered with NAME-ERROR and
  exactly one authority SOA record whose TTL, Refresh, Retry, Expire and Minttl are 300, and
  the forwarder is not called; any other request is forwarded upstream unchanged.
\<close>

theorem handleRequest_block_or_forward:
  assumes "Question r \<noteq> []"
  shows "\<exists>h. handleRequest Exchange env s w r = Inr h
     \<and> (let d = TrimSuffix (Name (hd (Question r))) ''.'';
             enabled = fst (readFocusMode (now_expiry env) s);
             blocked = (enabled \<and> \<not> isAllowed s d)
         in (blocked \<longrightarrow>
               Rcode (written h) = RcodeNameError
               \<and> (\<exists>soa. Ns (written h) = [RR_SOA soa] \<and> Ttl (Hdr soa) = 300
                     \<and> Refresh soa = 300 \<and> Retry soa = 300 \<and> Expire soa = 300
                     \<and> Minttl soa = 300)
               \<and> forwarded h = None \<and> attempts h = [] \<and> world h = w)
          \<and> (\<not> blocked \<longrightarrow>
               (\<exists>res tried w'. forward Exchange s r w = (res, tried, w')
                  \<and> forwarded h = Some res \<and> attempts h = tried \<and> world h = w')
               \<and> (\<forall>a\<in>set (attempts h). att_query a = r)))"
proof -
  have rb: "request_blocked env s r
      = (fst (readFocusMode (now_expiry env) s)
         \<and> \<not> isAllowed s (TrimSuffix (Name (hd (Question r))) ''.''))"
    by (simp add: request_blocked_def request_domain_hd [OF assms])
  show ?thesis
  proof (cases "request_blocked env s r")
    case True
    let ?h = "\<lparr>written = (SetRcode (SetReply zero_Msg r) r RcodeNameError)
                             \<lparr>Ns := [RR_SOA (block_SOA env r)]\<rparr>,
               forwarded = None, attempts = [], server = server_after env s r, world = w\<rparr>"
    have "handleRequest Exchange env s w r = Inr ?h"
      using True assms by (simp add: handleRequest_cases)
    moreover have "Rcode (written ?h) = RcodeNameError" by (simp add: Rcode_SetRcode)
    moreover have "\<exists>soa. Ns (written ?h) = [RR_SOA soa] \<and> Ttl (Hdr soa) = 300
                     \<and> Refresh soa = 300 \<and> Retry soa = 300 \<and> Expire soa = 300
                     \<and> Minttl soa = 300"
      by (intro exI [of _ "block_SOA env r"]) (simp add: SOA_fields)
    moreover have "forwarded ?h = None" "attempts ?h = []" "world ?h = w" by simp_all
    ultimately show ?thesis using True unfolding rb Let_def by blast
  next
    case False
    obtain res tried w' where fw: "forward Exchange s r w = (res, tried, w')"
      by (cases "forward Exchange s r w")
    have q: "\<forall>a\<in>set tried. att_query a = r" using forward_trace(2) [OF fw] by blast
    obtain h where h: "handleRequest Exchange env s w r = Inr h"
      "forwarded h = Some res" "attempts h = tried" "world h = w'"
      using False fw by (cases res) (simp_all add: handleRequest_cases)
    show ?thesis using False h fw q unfolding rb Let_def by blast
  qed
qed


theorem handleRequest_block_or_forward_witness:
  "Question (example_query ''evil.com.'') \<noteq> []
   \<and> (\<exists>h. handleRequest example_Exchange example_Env (example_Server True None None) ()
              (example_query ''evil.com.'') = Inr h
          \<and> Rcode (written h) = RcodeNameError \<and> forwarded h = None \<and> attempts h = [])
   \<and> Question (example_query ''crates.docs.rs.'') \<noteq> []
   \<and> (\<exists>h. handleRequest example_Exchange example_Env (example_Server True None None) ()
              (example_query ''crates.docs.rs.'') = Inr h
          \<and> forwarded h \<noteq> None)"
proof -
  let ?s = "example_Server True None None"
  have q1: "Question (example_query ''evil.com.'') \<noteq> []"
    and q2: "Question (example_query ''crates.docs.rs.'') \<noteq> []"
    by (simp_all add: example_query_def zero_Msg_def)
  have b1: "fst (readFocusMode (now_expiry example_Env) ?s)
      \<and> \<not> isAllowed ?s (TrimSuffix (Name (hd (Question (example_query ''evil.com.'')))) ''.'')"
    by code_simp
  have b2: "\<not> (fst (readFocusMode (now_expiry example_Env) ?s)
      \<and> \<not> isAllowed ?s (TrimSuffix (Name (hd (Question (example_query ''crates.docs.rs.'')))) ''.''))"
    by code_simp
  have e1: "\<exists>h. handleRequest example_Exchange example_Env ?s () (example_query ''evil.com.'') = Inr h
          \<and> Rcode (written h) = RcodeNameError \<and> forwarded h = None \<and> attempts h = []"
    using handleRequest_block_or_forward [OF q1, of example_Exchange example_Env ?s "()"] b1
    unfolding Let_def by blast
  have e2: "\<exists>h. handleRequest example_Exchange example_Env ?s () (example_query ''crates.docs.rs.'') = Inr h
          \<and> forwarded h \<noteq> None"
    using handleRequest_block_or_forward [OF q2, of example_Exchange example_Env ?s "()"] b2
    unfolding Let_def by fastforce
  show ?thesis using q1 q2 e1 e2 by blast
qed











lemma apiServer_server_after:
  "apiServer (server_after env s r) =
     (if request_domain r \<noteq> [] then
        (case apiServer s of
           Some api \<Rightarrow>
             Some (AddQuery (entries env) api
                     \<lparr>Client = resolveHost env (RemoteAddr env), Domain = request_domain r,
                      Timestamp = now_query env, Blocked = request_blocked env s r\<rparr>)
         | None \<Rightarrow> None)
      else apiServer s)"
proof -
  obtain fm s1 where rf: "readFocusMode (now_expiry env) s = (fm, s1)"
    by (cases "readFocusMode (now_expiry env) s")
  have s1: "apiServer s1 = apiServer s" "isAllowed s1 (request_domain r) = isAllowed s (request_domain r)"
    using readFocusMode_fields [of "now_expiry env" s] rf
    by (simp_all add: isAllowed_def)
  show ?thesis
    by (simp add: server_after_def rf recordQuery_def Let_def s1 request_blocked_def
        split: option.split)
qed

text \<open>
  C7, as amended. A request whose queried name, after trimming, is not empty is recorded
  in the ledger of the attached API server, with the domain, the client's host name, the
  time and the block decision, whether focus mode is on or off. A request with an empty
  name, or a server without API server, records nothing.
\<close>

theorem handleRequest_records_query:
  assumes "handleRequest Exchange env s w r = Inr h"
  shows "(request_domain r \<noteq> [] \<longrightarrow>
           (\<forall>api. apiServer s = Some api \<longrightarrow>
              apiServer (server h) =
                Some (AddQuery (entries env) api
                        \<lparr>Client = resolveHost env (RemoteAddr env), Domain = request_domain r,
                         Timestamp = now_query env, Blocked = request_blocked env s r\<rparr>)))
     \<and> (request_domain r = [] \<or> apiServer s = None \<longrightarrow> apiServer (server h) = apiServer s)"
  unfolding handleRequest_server [OF assms] apiServer_server_after
  by auto

theorem handleRequest_records_query_witness:
  "\<exists>h. handleRequest example_Exchange example_Env (example_Server False None (Some api_NewServer)) ()
          (example_query ''openai.com.'') = Inr h
      \<and> request_domain (example_query ''openai.com.'') = ''openai.com''
      \<and> \<not> focusMode (example_Server False None (Some api_NewServer))
      \<and> apiServer (server h) =
          Some (AddQuery [] api_NewServer
                  \<lparr>Client = ''localhost'', Domain = ''openai.com'', Timestamp = 201, Blocked = False\<rparr>)"
proof -
  let ?s = "example_Server False None (Some api_NewServer)"
  let ?r = "example_query ''openai.com.''"
  have d: "request_domain ?r = ''openai.com''" by code_simp
  have nb: "\<not> request_blocked example_Env ?s ?r"
    by (simp add: request_blocked_def readFocusMode_def example_Server_def)
  obtain h where h: "handleRequest example_Exchange example_Env ?s () ?r = Inr h"
    using handleRequest_returns [of example_Env ?s ?r example_Exchange "()"] nb by blast
  have a: "apiServer ?s = Some api_NewServer" by (simp add: example_Server_def)
  have "apiServer (server h) =
          Some (AddQuery (entries example_Env) api_NewServer
                  \<lparr>Client = resolveHost example_Env (RemoteAddr example_Env),
                   Domain = request_domain ?r, Timestamp = now_query example_Env,
                   Blocked = request_blocked example_Env ?s ?r\<rparr>)"
    using handleRequest_records_query [OF h] d a by simp
  then have "apiServer (server h) =
          Some (AddQuery [] api_NewServer
                  \<lparr>Client = ''localhost'', Domain = ''openai.com'', Timestamp = 201, Blocked = False\<rparr>)"
    using nb d by (simp add: example_Env_def)
  moreover have "\<not> focusMode ?s" by (simp add: example_Server_def)
  ultimately show ?thesis using h d by blast
qed

theorem root_query_not_recorded_counterexample:
  "\<exists>h. handleRequest example_Exchange example_Env (example_Server False None (Some api_NewServer)) ()
          (example_query ''.'') = Inr h
      \<and> Question (example_query ''.'') = [\<lparr>Name = ''.'', Qtype = 1, Qclass = 1\<rparr>]
      \<and> apiServer (example_Server False None (Some api_NewServer)) = Some api_NewServer
      \<and> apiServer (server h) = Some api_NewServer
      \<and> queryMap api_NewServer = Mapping.empty"
proof -
  let ?s = "example_Server False None (Some api_NewServer)"
  let ?r = "example_query ''.''"
  have d: "request_domain ?r = []" by code_simp
  have nb: "\<not> request_blocked example_Env ?s ?r"
    by (simp add: request_blocked_def readFocusMode_def example_Server_def)
  obtain h where h: "handleRequest example_Exchange example_Env ?s () ?r = Inr h"
    using handleRequest_returns [of example_Env ?s ?r example_Exchange "()"] nb by blast
  have "apiServer (server h) = apiServer ?s"
    unfolding handleRequest_server [OF h] apiServer_server_after using d by simp
  then show ?thesis
    using h by (simp add: example_Server_def example_query_def zero_Msg_def api_NewServer_def)
qed



section \<open>The focus-mode endpoint\<close>

lemma handleSetFocusMode_rejected:
  "parsed_duration ParseDuration req = None \<Longrightarrow>
   handleSetFocusMode ParseDuration cb now (Some req) api d
     = \<lparr>status = 400, api_after = api, dns_after = d, callback_calls = []\<rparr>"
  by (simp add: handleSetFocusMode_def parsed_duration_def)

lemma handleSetFocusMode_undecoded:
  "handleSetFocusMode ParseDuration cb now None api d
     = \<lparr>status = 400, api_after = api, dns_after = d, callback_calls = []\<rparr>"
  by (simp add: handleSetFocusMode_def)

lemma handleSetFocusMode_accepted:
  assumes "parsed_duration ParseDuration req = Some dur"
  shows "handleSetFocusMode ParseDuration cb now (Some req) api d
     = (let api' = api\<lparr>api_focusMode := req_Enabled req,
                        api_focusEndTime :=
                          (if req_Enabled req \<and> dur > 0 then Some (now + dur) else None)\<rparr>
        in case cb of
             None \<Rightarrow> \<lparr>status = 200, api_after = api', dns_after = d, callback_calls = []\<rparr>
           | Some callback \<Rightarrow>
               \<lparr>status = (if fst (callback (req_Enabled req) dur d) = None then 200 else 500),
                api_after = api', dns_after = snd (callback (req_Enabled req) dur d),
                callback_calls = [(req_Enabled req, dur)]\<rparr>)"
proof -
  have p: "(if req_Enabled req \<and> req_Duration req \<noteq> [] then ParseDuration (req_Duration req)
            else Some 0) = Some dur"
    using assms by (simp add: parsed_duration_def)
  show ?thesis
    apply (simp only: handleSetFocusMode_def option.case p)
    apply (cases cb)
     apply (simp add: Let_def)
    apply (simp add: Let_def split: prod.split option.split)
    done
qed

text \<open>
  C8, as amended. A request that enables focus mode with a non-empty duration string that
  does not parse is answered with 400 and changes nothing: the flag, the deadline and the
  DNS side stay as they were and the callback is not called; so is a body that does not
  decode. Every other request sets the flag and the deadline and calls the callback if
  there is one; the status is 200 unless the callback reports an error, then 500. A
  request that disables focus mode never has its duration string parsed.
\<close>

theorem handleSetFocusMode_status:
  "(req_Enabled req \<and> req_Duration req \<noteq> [] \<and> ParseDuration (req_Duration req) = None \<longrightarrow>
      handleSetFocusMode ParseDuration cb now (Some req) api d
        = \<lparr>status = 400, api_after = api, dns_after = d, callback_calls = []\<rparr>)
   \<and> (\<forall>dur. parsed_duration ParseDuration req = Some dur \<longrightarrow>
        api_focusMode (api_after (handleSetFocusMode ParseDuration cb now (Some req) api d))
          = req_Enabled req
        \<and> api_focusEndTime (api_after (handleSetFocusMode ParseDuration cb now (Some req) api d))
          = (if req_Enabled req \<and> dur > 0 then Some (now + dur) else None)
        \<and> (cb = None \<longrightarrow>
             status (handleSetFocusMode ParseDuration cb now (Some req) api d) = 200
             \<and> callback_calls (handleSetFocusMode ParseDuration cb now (Some req) api d) = [])
        \<and> (\<forall>callback. cb = Some callback \<longrightarrow>
             callback_calls (handleSetFocusMode ParseDuration cb now (Some req) api d)
               = [(req_Enabled req, dur)]
             \<and> status (handleSetFocusMode ParseDuration cb now (Some req) api d)
               = (if fst (callback (req_Enabled req) dur d) = None then 200 else 500)))
   \<and> (\<not> req_Enabled req \<longrightarrow> parsed_duration ParseDuration req = Some 0)
   \<and> handleSetFocusMode ParseDuration cb now None api d
        = \<lparr>status = 400, api_after = api, dns_after = d, callback_calls = []\<rparr>"
proof -
  have a: "handleSetFocusMode ParseDuration cb now (Some req) api d
        = \<lparr>status = 400, api_after = api, dns_after = d, callback_calls = []\<rparr>"
    if "req_Enabled req \<and> req_Duration req \<noteq> [] \<and> ParseDuration (req_Duration req) = None"
    using that by (intro handleSetFocusMode_rejected) (simp add: parsed_duration_def)
  have b: "api_focusMode (api_after (handleSetFocusMode ParseDuration cb now (Some req) api d))
          = req_Enabled req
        \<and> api_focusEndTime (api_after (handleSetFocusMode ParseDuration cb now (Some req) api d))
          = (if req_Enabled req \<and> dur > 0 then Some (now + dur) else None)
        \<and> (cb = None \<longrightarrow>
             status (handleSetFocusMode ParseDuration cb now (Some req) api d) = 200
             \<and> callback_calls (handleSetFocusMode ParseDuration cb now (Some req) api d) = [])
        \<and> (\<forall>callback. cb = Some callback \<longrightarrow>
             callback_calls (handleSetFocusMode ParseDuration cb now (Some req) api d)
               = [(req_Enabled req, dur)]
             \<and> status (handleSetFocusMode ParseDuration cb now (Some req) api d)
               = (if fst (callback (req_Enabled req) dur d) = None then 200 else 500))"
    if "parsed_duration ParseDuration req = Some dur" for dur
    unfolding handleSetFocusMode_accepted [OF that]
    by (cases cb) (simp_all add: Let_def)
  have c: "\<not> req_Enabled req \<longrightarrow> parsed_duration ParseDuration req = Some 0"
    by (simp add: parsed_duration_def)
  show ?thesis
    apply (rule conjI)
     apply (rule impI)
     apply (erule a)
    apply (rule conjI)
     apply (intro allI impI)
     apply (erule b)
    apply (rule conjI)
     apply (rule c)
    apply (rule handleSetFocusMode_undecoded)
    done
qed

theorem handleSetFocusMode_status_witness:
  "example_ParseDuration ''abc'' = None
   \<and> handleSetFocusMode example_ParseDuration (Some (setFocusMode None 50)) 50
        (Some \<lparr>req_Enabled = True, req_Duration = ''abc''\<rparr>)
        api_NewServer (example_Server False None None)
      = \<lparr>status = 400, api_after = api_NewServer, dns_after = example_Server False None None,
         callback_calls = []\<rparr>
   \<and> example_ParseDuration ''10m'' = Some 600000000000
   \<and> status (handleSetFocusMode example_ParseDuration (Some (setFocusMode None 50)) 50
        (Some \<lparr>req_Enabled = True, req_Duration = ''10m''\<rparr>)
        api_NewServer (example_Server False None None)) = 200
   \<and> api_focusEndTime (api_after (handleSetFocusMode example_ParseDuration (Some (setFocusMode None 50)) 50
        (Some \<lparr>req_Enabled = True, req_Duration = ''10m''\<rparr>)
        api_NewServer (example_Server False None None))) = Some 600000000050"
proof -
  let ?cb = "Some (setFocusMode None 50)"
  let ?d = "example_Server False None None"
  let ?bad = "\<lparr>req_Enabled = True, req_Duration = ''abc''\<rparr>"
  let ?good = "\<lparr>req_Enabled = True, req_Duration = ''10m''\<rparr>"
  have p1: "example_ParseDuration ''abc'' = None"
    and p2: "example_ParseDuration ''10m'' = Some 600000000000"
    by (simp_all add: example_ParseDuration_def Second_def)
  have h1: "req_Enabled ?bad \<and> req_Duration ?bad \<noteq> []
            \<and> example_ParseDuration (req_Duration ?bad) = None"
    using p1 by simp
  have h2: "parsed_duration example_ParseDuration ?good = Some 600000000000"
    using p2 by (simp add: parsed_duration_def)
  have ok: "fst (setFocusMode None 50 True 600000000000 ?d) = None"
    by (simp add: setFocusMode_def Let_def)
  note t1 = handleSetFocusMode_status [of ?bad example_ParseDuration ?cb 50 api_NewServer ?d]
  note t2 = handleSetFocusMode_status [of ?good example_ParseDuration ?cb 50 api_NewServer ?d]
  have r1: "handleSetFocusMode example_ParseDuration ?cb 50 (Some ?bad) api_NewServer ?d
      = \<lparr>status = 400, api_after = api_NewServer, dns_after = ?d, callback_calls = []\<rparr>"
    using t1 h1 by blast
  have r2: "status (handleSetFocusMode example_ParseDuration ?cb 50 (Some ?good) api_NewServer ?d) = 200"
    using t2 h2 ok by simp
  have r3: "api_focusEndTime (api_after (handleSetFocusMode example_ParseDuration ?cb 50 (Some ?good)
              api_NewServer ?d)) = Some 600000000050"
    using t2 h2 by simp
  show ?thesis using p1 p2 r1 r2 r3 by blast
qed

theorem disable_with_bad_duration_counterexample:
  "example_ParseDuration ''abc'' = None
   \<and> status (handleSetFocusMode example_ParseDuration (Some (setFocusMode None 50)) 50
        (Some \<lparr>req_Enabled = False, req_Duration = ''abc''\<rparr>)
        \<lparr>queryMap = Mapping.empty, api_focusMode = True, api_focusEndTime = Some 100\<rparr>
        (example_Server True (Some 100) None)) = 200
   \<and> api_after (handleSetFocusMode example_ParseDuration (Some (setFocusMode None 50)) 50
        (Some \<lparr>req_Enabled = False, req_Duration = ''abc''\<rparr>)
        \<lparr>queryMap = Mapping.empty, api_focusMode = True, api_focusEndTime = Some 100\<rparr>
        (example_Server True (Some 100) None))
      = \<lparr>queryMap = Mapping.empty, api_focusMode = False, api_focusEndTime = None\<rparr>
   \<and> callback_calls (handleSetFocusMode example_ParseDuration (Some (setFocusMode None 50)) 50
        (Some \<lparr>req_Enabled = False, req_Duration = ''abc''\<rparr>)
        \<lparr>queryMap = Mapping.empty, api_focusMode = True, api_focusEndTime = Some 100\<rparr>
        (example_Server True (Some 100) None)) = [(False, 0)]"
  by (simp add: handleSetFocusMode_def setFocusMode_def example_ParseDuration_def Let_def)

end
